theory Spec2Isabelle
  imports Main "HOL-Library.Word"
begin

section \<open>Go values shared by the two programs\<close>

text \<open>
  A Go \<open>error\<close> is compared by identity. \<open>ErrRateLimited\<close> is the package-level sentinel of
  ep4 (\<open>var ErrRateLimited = fmt.Errorf("rate limited by third-party API")\<close>); every other
  error value is a fresh object that is never equal to the sentinel, whatever its message, and
  is modelled by its message.
\<close>

datatype error = ErrRateLimited | Errorf string

fun Error :: "error \<Rightarrow> string" where
  "Error ErrRateLimited = ''rate limited by third-party API''"
| "Error (Errorf msg) = msg"

section \<open>ep2: the fixed-window counter\<close>

text \<open>
  \<open>time.Time\<close> is a reading of the clock in nanoseconds, \<open>time.Duration\<close> a number of
  nanoseconds. Go's \<open>int\<close> is the 64-bit two's complement integer of the usual platforms.
  Both ep2 and ep4 declare a \<open>RateLimiter\<close>; the one of ep2 carries the suffix \<open>_ep2\<close>.
\<close>

definition RequestLimit :: "64 word" where
  "RequestLimit = 5"

definition TimeWindow :: int where
  "TimeWindow = 60 * 1000000000"

record Visitor =
  lastSeen :: int
  requests :: "64 word"

record RateLimiter_ep2 =
  visitors :: "string \<rightharpoonup> Visitor"
  storageEnabled :: bool

definition NewRateLimiter_ep2 :: RateLimiter_ep2 where
  "NewRateLimiter_ep2 = \<lparr>visitors = Map.empty, storageEnabled = True\<rparr>"

definition SimulateStorageFailure :: "bool \<Rightarrow> RateLimiter_ep2 \<Rightarrow> RateLimiter_ep2" where
  "SimulateStorageFailure enable rl = rl\<lparr>storageEnabled := enable\<rparr>"

text \<open>
  \<open>Limit\<close> reads the clock at most twice: \<open>t1\<close> is the first reading (the \<open>time.Now()\<close>
  of a new visitor, or the one inside \<open>time.Since\<close>), \<open>t2\<close> the second (the
  \<open>time.Now()\<close> stored into an existing visitor). The result is the pair the Go function
  returns, \<open>(limited, err)\<close>, together with the limiter after the call.
\<close>

definition Limit :: "int \<Rightarrow> int \<Rightarrow> RateLimiter_ep2 \<Rightarrow> string \<Rightarrow> (bool \<times> error option) \<times> RateLimiter_ep2" where
  "Limit t1 t2 rl userID =
     (if \<not> storageEnabled rl then ((False, Some (Errorf ''storage unavailable'')), rl)
      else case visitors rl userID of
        None \<Rightarrow>
          ((False, None), rl\<lparr>visitors := (visitors rl)(userID \<mapsto> \<lparr>lastSeen = t1, requests = 1\<rparr>)\<rparr>)
      | Some visitor \<Rightarrow>
          if t1 - lastSeen visitor > TimeWindow
          then ((False, None),
                rl\<lparr>visitors := (visitors rl)(userID \<mapsto> visitor\<lparr>lastSeen := t2, requests := 1\<rparr>)\<rparr>)
          else
            let visitor' = visitor\<lparr>requests := requests visitor + 1, lastSeen := t2\<rparr>;
                rl' = rl\<lparr>visitors := (visitors rl)(userID \<mapsto> visitor')\<rparr>
            in if RequestLimit <s requests visitor' then ((True, None), rl')
               else ((False, None), rl'))"

section \<open>ep4: the throttled dispatch lane\<close>

subsection \<open>Requests, responses and the downstream call\<close>

text \<open>
  A channel value is the address of a channel in the store of the system below.
  \<open>UserRequest.Data\<close> and \<open>APIResponse.Data\<close> share a name in Go; the field of the request,
  which the program never reads, carries the suffix \<open>_req\<close>.
\<close>

type_synonym chan = nat

record APIResponse =
  Data :: string
  Err :: "error option"

record UserRequest =
  UserID :: string
  Data_req :: string
  Response :: chan

definition Millisecond :: int where
  "Millisecond = 1000000"

definition maxRetries :: nat where
  "maxRetries = 5"

text \<open>
  \<open>callThirdPartyAPI\<close> draws a random number; its first argument says whether the draw fell
  below 0.3. The Go function returns \<open>(resp, err)\<close> with exactly one of the two set, which is
  the sum \<open>error + APIResponse\<close>.
\<close>

definition callThirdPartyAPI :: "bool \<Rightarrow> UserRequest \<Rightarrow> error + APIResponse" where
  "callThirdPartyAPI below req =
     (if below then Inl ErrRateLimited
      else Inr \<lparr>Data = ''Processed data for user '' @ UserID req, Err = None\<rparr>)"

text \<open>
  The dispatch code is written against whatever the downstream call returns, so it is modelled
  over an arbitrary downstream \<open>api\<close>: \<open>api n req\<close> is the result of the \<open>n\<close>-th call the
  process makes (counted from 0), when that call is made for \<open>req\<close>. The simulation of the
  source is the instance \<open>simulated draws\<close>.
\<close>

type_synonym downstream = "nat \<Rightarrow> UserRequest \<Rightarrow> error + APIResponse"

definition simulated :: "(nat \<Rightarrow> bool) \<Rightarrow> downstream" where
  "simulated draws n req = callThirdPartyAPI (draws n) req"

subsection \<open>Effects\<close>

text \<open>
  What the goroutines do to the outside is recorded as a trace of events, oldest first.
\<close>

datatype event =
    Enqueue UserRequest
  | Dequeue UserRequest
  | Tick
  | Invoke UserRequest
  | Sleep int
  | Send chan APIResponse
  | Reply "chan option" nat string

fun is_Invoke :: "event \<Rightarrow> bool" where
  "is_Invoke (Invoke r) = True"
| "is_Invoke e = False"

fun is_Send :: "event \<Rightarrow> bool" where
  "is_Send (Send c v) = True"
| "is_Send e = False"

fun sleeps :: "event list \<Rightarrow> int list" where
  "sleeps [] = []"
| "sleeps (Sleep d # es) = d # sleeps es"
| "sleeps (e # es) = sleeps es"

subsection \<open>sendRequest\<close>

text \<open>\<open>fmt.Errorf("... %d ...", n)\<close> prints \<open>n\<close> in decimal.\<close>

fun decimal :: "nat \<Rightarrow> string" where
  "decimal n = (if n < 10 then [''0123456789'' ! n] else decimal (n div 10) @ [''0123456789'' ! (n mod 10)])"

text \<open>
  The retry loop of \<open>sendRequest\<close>, with its two loop variables \<open>attempt\<close> and \<open>backoff\<close>
  and the number \<open>n\<close> of downstream calls made so far. It returns the effects of the call in
  order. \<open>time.Duration(float64(backoff) * math.Pow(2, float64(attempt)))\<close> is computed in
  double precision; over the at most five attempts of the loop every value involved is an
  integer below \<open>2 ^ 53\<close>, so conversions and product are exact and the model multiplies
  integers.
  The \<open>log.Printf\<close> before the sleep is not recorded.
\<close>

function sendRequest_loop :: "downstream \<Rightarrow> UserRequest \<Rightarrow> nat \<Rightarrow> nat \<Rightarrow> int \<Rightarrow> event list" where
  "sendRequest_loop api req n attempt backoff =
     (if attempt \<le> maxRetries then
        Invoke req #
        (case api n req of
           Inr resp \<Rightarrow> [Send (Response req) resp]
         | Inl err \<Rightarrow>
             if err = ErrRateLimited
             then Sleep backoff # sendRequest_loop api req (n + 1) (attempt + 1) (backoff * 2 ^ attempt)
             else [Send (Response req) \<lparr>Data = [], Err = Some err\<rparr>])
      else [Send (Response req)
              \<lparr>Data = [], Err = Some (Errorf (''request failed after '' @ decimal maxRetries @ '' retries''))\<rparr>])"
  by pat_completeness auto
termination
  by (relation "measure (\<lambda>(api, req, n, attempt, backoff). Suc maxRetries - attempt)") auto

declare sendRequest_loop.simps [simp del]

definition sendRequest :: "downstream \<Rightarrow> UserRequest \<Rightarrow> nat \<Rightarrow> event list" where
  "sendRequest api req n = sendRequest_loop api req n 1 (500 * Millisecond)"

subsection \<open>The HTTP handler's answer\<close>

text \<open>
  The handler waits in a \<open>select\<close> for the response or for \<open>time.After(5 * time.Second)\<close>,
  and turns what it got into a status code and a message.
\<close>

datatype waited = Received APIResponse | TimedOut

definition StatusBadRequest :: nat where "StatusBadRequest = 400"
definition StatusTooManyRequests :: nat where "StatusTooManyRequests = 429"
definition StatusInternalServerError :: nat where "StatusInternalServerError = 500"
definition StatusGatewayTimeout :: nat where "StatusGatewayTimeout = 504"
definition StatusOK :: nat where "StatusOK = 200"

fun render :: "waited \<Rightarrow> nat \<times> string" where
  "render (Received resp) =
     (case Err resp of
        Some err \<Rightarrow>
          if err = ErrRateLimited
          then (StatusTooManyRequests, ''Service is busy, please try again later.'')
          else (StatusInternalServerError, Error err)
      | None \<Rightarrow> (StatusOK, ''Success: '' @ Data resp))"
| "render TimedOut = (StatusGatewayTimeout, ''Request timed out'')"

subsection \<open>The process: queue, worker, callers\<close>

text \<open>
  The state of the running program. \<open>requestChan\<close> is the buffer of the channel of capacity
  10000, oldest request first; \<open>shutdownChan\<close> carries no values and is only ever closed, so
  it is the flag "closed". \<open>running\<close> says that the goroutine of \<open>processQueue\<close> has not
  returned (this is what \<open>wg\<close> waits for). \<open>chans\<close> is the store of the response channels,
  each made with capacity 1: \<open>chans s c\<close> is the buffer of channel \<open>c\<close>. \<open>nextChan\<close> is the
  next fresh channel address, \<open>waiting\<close> lists the channels whose handler is still in its
  \<open>select\<close>, \<open>calls\<close> counts the downstream calls made, \<open>trace\<close> records the effects.
  The field \<open>requests\<close> of the Go struct is never used.
\<close>

record System =
  requestChan :: "UserRequest list"
  shutdownChan :: bool
  running :: bool
  chans :: "chan \<Rightarrow> APIResponse list"
  nextChan :: chan
  waiting :: "chan list"
  calls :: nat
  trace :: "event list"

definition requestChan_cap :: nat where
  "requestChan_cap = 10000"

definition Response_cap :: nat where
  "Response_cap = 1"

text \<open>\<open>NewRateLimiter\<close> makes the two channels and starts the worker goroutine.\<close>

definition NewRateLimiter :: System where
  "NewRateLimiter =
     \<lparr>requestChan = [], shutdownChan = False, running = True, chans = (\<lambda>c. []),
      nextChan = 0, waiting = [], calls = 0, trace = []\<rparr>"

text \<open>
  Every operation below returns \<open>None\<close> when it cannot take place in the given state: a send
  on a full channel or a receive on an empty one blocks, a \<open>select\<close> takes only a case that
  is ready, and closing a closed channel panics.
\<close>

definition SubmitRequest :: "UserRequest \<Rightarrow> System \<Rightarrow> System option" where
  "SubmitRequest req s =
     (if length (requestChan s) < requestChan_cap
      then Some (s\<lparr>requestChan := requestChan s @ [req], trace := trace s @ [Enqueue req]\<rparr>)
      else None)"

text \<open>
  \<open>Shutdown\<close> closes the channel; the \<open>rl.wg.Wait()\<close> after it only holds the caller back
  until \<open>running\<close> is false.
\<close>

definition Shutdown :: "System \<Rightarrow> System option" where
  "Shutdown s = (if shutdownChan s then None else Some (s\<lparr>shutdownChan := True\<rparr>))"

text \<open>
  Carrying out the channel sends among the effects of one \<open>sendRequest\<close> call: a send
  completes when the buffer has room and blocks otherwise.
\<close>

fun deliver :: "event list \<Rightarrow> (chan \<Rightarrow> APIResponse list) \<Rightarrow> (chan \<Rightarrow> APIResponse list) option" where
  "deliver [] ch = Some ch"
| "deliver (Send c v # es) ch =
     (if length (ch c) < Response_cap then deliver es (ch(c := ch c @ [v])) else None)"
| "deliver (e # es) ch = deliver es ch"

text \<open>
  One turn of the loop of \<open>processQueue\<close>. The \<open>select\<close> has two cases; Go picks any case
  that is ready, so the case taken is an argument. The request case receives the head of the
  queue, waits for one tick of the ticker (one every \<open>time.Minute / 1000\<close>, that is 60 ms) and
  runs \<open>sendRequest\<close>. A tick always comes, so the receive from \<open>ticker.C\<close> never blocks
  for good; real time is not part of the model. Between the receive and the final send
  \<open>sendRequest\<close> touches nothing another goroutine can see, so the whole turn is one action
  of the worker. A turn whose send finds the response channel full would block there; the
  result is \<open>None\<close> then, and the invariant below shows that no state the program reaches
  has such a turn.
\<close>

datatype select_case = CaseShutdown | CaseRequest

definition processQueue :: "downstream \<Rightarrow> select_case \<Rightarrow> System \<Rightarrow> System option" where
  "processQueue api c s =
     (if \<not> running s then None
      else case c of
        CaseShutdown \<Rightarrow> if shutdownChan s then Some (s\<lparr>running := False\<rparr>) else None
      | CaseRequest \<Rightarrow>
          (case requestChan s of
             [] \<Rightarrow> None
           | req # rest \<Rightarrow>
               let evs = sendRequest api req (calls s) in
               (case deliver evs (chans s) of
                  None \<Rightarrow> None
                | Some ch \<Rightarrow>
                    Some (s\<lparr>requestChan := rest, chans := ch,
                            calls := calls s + length (filter is_Invoke evs),
                            trace := trace s @ Dequeue req # Tick # evs\<rparr>))))"

text \<open>
  The HTTP handler of \<open>main\<close>, up to its \<open>select\<close>: it rejects an empty user id, and
  otherwise makes a fresh response channel of capacity 1, submits the request and waits.
\<close>

definition handler :: "string \<Rightarrow> System \<Rightarrow> System option" where
  "handler userID s =
     (if userID = [] then
        Some (s\<lparr>trace := trace s @ [Reply None StatusBadRequest ''User ID is required'']\<rparr>)
      else
        let c = nextChan s;
            req = \<lparr>UserID = userID, Data_req = ''Some data'', Response = c\<rparr>
        in case SubmitRequest req (s\<lparr>nextChan := c + 1, chans := (chans s)(c := [])\<rparr>) of
             None \<Rightarrow> None
           | Some s' \<Rightarrow> Some (s'\<lparr>waiting := waiting s' @ [c]\<rparr>))"

text \<open>
  The \<open>select\<close> of the handler waiting on channel \<open>c\<close>: it receives the response, or the
  five seconds pass. Either way the handler answers and returns, and nobody reads \<open>c\<close> again.
\<close>

datatype wait_case = CaseResponse | CaseTimeout

definition handler_select :: "chan \<Rightarrow> wait_case \<Rightarrow> System \<Rightarrow> System option" where
  "handler_select c w s =
     (if c \<notin> set (waiting s) then None
      else case w of
        CaseResponse \<Rightarrow>
          (case chans s c of
             [] \<Rightarrow> None
           | resp # rest \<Rightarrow>
               Some (s\<lparr>chans := (chans s)(c := rest), waiting := removeAll c (waiting s),
                       trace := trace s @ [Reply (Some c) (fst (render (Received resp)))
                                                        (snd (render (Received resp)))]\<rparr>))
      | CaseTimeout \<Rightarrow>
          Some (s\<lparr>waiting := removeAll c (waiting s),
                  trace := trace s @ [Reply (Some c) (fst (render TimedOut)) (snd (render TimedOut))]\<rparr>))"

text \<open>
  The goroutines interleave; a run of the program is a list of their atomic actions.
\<close>

datatype action =
    Handler string
  | HandlerSelect chan wait_case
  | CallShutdown
  | Worker select_case

fun step :: "downstream \<Rightarrow> action \<Rightarrow> System \<Rightarrow> System option" where
  "step api (Handler userID) s = handler userID s"
| "step api (HandlerSelect c w) s = handler_select c w s"
| "step api CallShutdown s = Shutdown s"
| "step api (Worker c) s = processQueue api c s"

fun exec :: "downstream \<Rightarrow> action list \<Rightarrow> System \<Rightarrow> System option" where
  "exec api [] s = Some s"
| "exec api (a # as) s = (case step api a s of None \<Rightarrow> None | Some s' \<Rightarrow> exec api as s')"

subsection \<open>Reading a trace\<close>

fun enqueued :: "event list \<Rightarrow> UserRequest list" where
  "enqueued [] = []"
| "enqueued (Enqueue r # es) = r # enqueued es"
| "enqueued (e # es) = enqueued es"

fun dequeued :: "event list \<Rightarrow> UserRequest list" where
  "dequeued [] = []"
| "dequeued (Dequeue r # es) = r # dequeued es"
| "dequeued (e # es) = dequeued es"

fun invoked :: "event list \<Rightarrow> UserRequest list" where
  "invoked [] = []"
| "invoked (Invoke r # es) = r # invoked es"
| "invoked (e # es) = invoked es"

fun sent :: "event list \<Rightarrow> chan list" where
  "sent [] = []"
| "sent (Send c v # es) = c # sent es"
| "sent (e # es) = sent es"

fun replied :: "event list \<Rightarrow> chan list" where
  "replied [] = []"
| "replied (Reply (Some c) st msg # es) = c # replied es"
| "replied (e # es) = replied es"

text \<open>
  The reading of "one release signal before every invocation": walking the trace, each
  \<open>Invoke\<close> needs a \<open>Tick\<close> observed since the previous \<open>Invoke\<close>. The flag says whether
  such a tick is at hand.
\<close>

fun throttled :: "bool \<Rightarrow> event list \<Rightarrow> bool" where
  "throttled have [] = True"
| "throttled have (Tick # es) = throttled True es"
| "throttled have (Invoke r # es) = (have \<and> throttled False es)"
| "throttled have (e # es) = throttled have es"

text \<open>
  The backoff policy in the words of the specification, \<open>base \<times> 2^attempt\<close> with the base of
  500 ms, for comparison with the delays the code sleeps.
\<close>

definition NextDelay_spec :: "nat \<Rightarrow> int" where
  "NextDelay_spec attempt = 500 * Millisecond * 2 ^ attempt"

subsection \<open>The invariant of the running program\<close>

text \<open>
  What holds in every state the program reaches: the queue is what was enqueued and not yet
  dequeued; every request carries its own response channel, made before \<open>nextChan\<close>; the
  channel of a queued request is empty; the worker has sent once on the channel of each
  dequeued request and on no other; the requests were invoked in the order they were
  dequeued; no handler has answered twice or answered and still waits.
\<close>

definition lane_inv :: "System \<Rightarrow> bool" where
  "lane_inv s \<longleftrightarrow>
     enqueued (trace s) = dequeued (trace s) @ requestChan s
   \<and> (\<forall>r \<in> set (enqueued (trace s)). Response r < nextChan s)
   \<and> distinct (map Response (enqueued (trace s)))
   \<and> (\<forall>r \<in> set (requestChan s). chans s (Response r) = [])
   \<and> sent (trace s) = map Response (dequeued (trace s))
   \<and> remdups_adj (invoked (trace s)) = dequeued (trace s)
   \<and> distinct (replied (trace s) @ waiting s)
   \<and> (\<forall>c \<in> set (replied (trace s) @ waiting s). c < nextChan s)"

subsection \<open>Some downstreams and runs\<close>

text \<open>
  Two sequences of random draws for the simulated downstream (every call rate-limited, only
  the first call rate-limited), and a downstream that fails with an error of its own.
\<close>

definition every_draw_low :: "nat \<Rightarrow> bool" where
  "every_draw_low n = True"

definition first_draw_low :: "nat \<Rightarrow> bool" where
  "first_draw_low n = (n = 0)"

definition broken_downstream :: downstream where
  "broken_downstream n req = Inl (Errorf ''boom'')"

definition req_u :: UserRequest where
  "req_u = \<lparr>UserID = ''u'', Data_req = ''Some data'', Response = 0\<rparr>"

definition req_v :: UserRequest where
  "req_v = \<lparr>UserID = ''v'', Data_req = ''Some data'', Response = 1\<rparr>"

definition resp_u :: APIResponse where
  "resp_u = \<lparr>Data = ''Processed data for user u'', Err = None\<rparr>"

definition exhausted :: APIResponse where
  "exhausted = \<lparr>Data = [], Err = Some (Errorf ''request failed after 5 retries'')\<rparr>"

text \<open>
  The state after user \<open>u\<close> has submitted and the worker has taken one turn, with the first
  downstream call rate-limited and the second successful.
\<close>

definition retried_run :: System where
  "retried_run =
     \<lparr>requestChan = [], shutdownChan = False, running = True, chans = (\<lambda>c. [])(0 := [resp_u]),
      nextChan = 1, waiting = [0], calls = 2,
      trace = [Enqueue req_u, Dequeue req_u, Tick, Invoke req_u, Sleep (500 * Millisecond),
               Invoke req_u, Send 0 resp_u]\<rparr>"

text \<open>The state after \<open>u\<close> has submitted, \<open>Shutdown\<close> was called and the worker took the
  shutdown case.\<close>

definition submitted_run :: System where
  "submitted_run =
     \<lparr>requestChan = [req_u], shutdownChan = True, running = True, chans = (\<lambda>c. [])(0 := []),
      nextChan = 1, waiting = [0], calls = 0, trace = [Enqueue req_u]\<rparr>"

definition halted_run :: System where
  "halted_run =
     \<lparr>requestChan = [req_u], shutdownChan = True, running = False, chans = (\<lambda>c. [])(0 := []),
      nextChan = 1, waiting = [0], calls = 0, trace = [Enqueue req_u]\<rparr>"

text \<open>The state after \<open>u\<close> has submitted and given up, and the worker has then taken its
  turn.\<close>

definition abandoned_run :: System where
  "abandoned_run =
     \<lparr>requestChan = [], shutdownChan = False, running = True, chans = (\<lambda>c. [])(0 := [resp_u]),
      nextChan = 1, waiting = [], calls = 2,
      trace = [Enqueue req_u, Reply (Some 0) StatusGatewayTimeout ''Request timed out'',
               Dequeue req_u, Tick, Invoke req_u, Sleep (500 * Millisecond),
               Invoke req_u, Send 0 resp_u]\<rparr>"

text \<open>The state after \<open>u\<close> and then \<open>v\<close> have submitted and the worker has taken one turn.\<close>

definition two_callers_run :: System where
  "two_callers_run =
     \<lparr>requestChan = [req_v], shutdownChan = False, running = True,
      chans = (\<lambda>c. [])(0 := [], 1 := [], 0 := [resp_u]),
      nextChan = 2, waiting = [0, 1], calls = 2,
      trace = [Enqueue req_u, Enqueue req_v, Dequeue req_u, Tick, Invoke req_u,
               Sleep (500 * Millisecond), Invoke req_u, Send 0 resp_u]\<rparr>"

subsection \<open>The handler's wait in time\<close>










text \<open>The state after \<open>u\<close> has submitted and given up.\<close>

definition timed_out_run :: System where
  "timed_out_run =
     \<lparr>requestChan = [req_u], shutdownChan = False, running = True, chans = (\<lambda>c. [])(0 := []),
      nextChan = 1, waiting = [], calls = 0,
      trace = [Enqueue req_u, Reply (Some 0) StatusGatewayTimeout ''Request timed out'']\<rparr>"

text \<open>
  The state after \<open>u\<close> and then \<open>v\<close> have submitted, the worker has taken one turn,
  \<open>Shutdown\<close> was called and the worker took the shutdown case; and the state after the
  handler of \<open>v\<close> has then timed out.
\<close>

definition backlog_run :: System where
  "backlog_run =
     \<lparr>requestChan = [req_v], shutdownChan = True, running = False,
      chans = (\<lambda>c. [])(0 := [], 1 := [], 0 := [resp_u]),
      nextChan = 2, waiting = [0, 1], calls = 2,
      trace = [Enqueue req_u, Enqueue req_v, Dequeue req_u, Tick, Invoke req_u,
               Sleep (500 * Millisecond), Invoke req_u, Send 0 resp_u]\<rparr>"

definition backlog_timed_out_run :: System where
  "backlog_timed_out_run =
     \<lparr>requestChan = [req_v], shutdownChan = True, running = False,
      chans = (\<lambda>c. [])(0 := [], 1 := [], 0 := [resp_u]),
      nextChan = 2, waiting = [0], calls = 2,
      trace = [Enqueue req_u, Enqueue req_v, Dequeue req_u, Tick, Invoke req_u,
               Sleep (500 * Millisecond), Invoke req_u, Send 0 resp_u,
               Reply (Some 1) StatusGatewayTimeout ''Request timed out'']\<rparr>"

section \<open>ep4: what one call of sendRequest does\<close>

lemma loop_send_last:
  "filter is_Send (sendRequest_loop api req n attempt backoff)
     = [last (sendRequest_loop api req n attempt backoff)]
   \<and> (\<exists>v. last (sendRequest_loop api req n attempt backoff) = Send (Response req) v)"
proof (induction api req n attempt backoff rule: sendRequest_loop.induct)
  case (1 api req n attempt backoff)
  show ?case
    using 1 by (simp only: sendRequest_loop.simps [of api req n attempt backoff]) (auto split: sum.splits)
qed

text \<open>
  The effects of the loop are some invocations of the request and sleeps, closed by one send
  on the request's own channel; from attempt \<open>a\<close> on there are at most \<open>maxRetries + 1 - a\<close>
  invocations.
\<close>

lemma loop_shape:
  "\<exists>pre v. sendRequest_loop api req n attempt backoff = pre @ [Send (Response req) v]
      \<and> sent pre = [] \<and> enqueued pre = [] \<and> dequeued pre = [] \<and> replied pre = []
      \<and> invoked pre = replicate (length (filter is_Invoke pre)) req
      \<and> filter (\<lambda>e. e = Tick) pre = []
      \<and> length (filter is_Invoke pre) \<le> Suc maxRetries - attempt"
proof (induction api req n attempt backoff rule: sendRequest_loop.induct)
  case (1 api req n attempt backoff)
  show ?case
  proof (cases "attempt \<le> maxRetries")
    case False
    then show ?thesis
      by (simp add: sendRequest_loop.simps [of api req n attempt backoff])
  next
    case le: True
    have one: "Suc 0 \<le> Suc maxRetries - attempt" using le by simp
    show ?thesis
    proof (cases "api n req")
      case (Inr resp)
      with le have "sendRequest_loop api req n attempt backoff = [Invoke req] @ [Send (Response req) resp]"
        by (simp add: sendRequest_loop.simps [of api req n attempt backoff])
      with one show ?thesis by (intro exI [of _ "[Invoke req]"] exI [of _ resp]) simp
    next
      case (Inl err)
      show ?thesis
      proof (cases "err = ErrRateLimited")
        case False
        with le Inl have "sendRequest_loop api req n attempt backoff
            = [Invoke req] @ [Send (Response req) \<lparr>Data = [], Err = Some err\<rparr>]"
          by (simp add: sendRequest_loop.simps [of api req n attempt backoff])
        with one show ?thesis by (intro exI [of _ "[Invoke req]"] exI) simp
      next
        case True
        from "1.IH" [OF le Inl True] obtain pre v where
          rest: "sendRequest_loop api req (n + 1) (attempt + 1) (backoff * 2 ^ attempt)
                   = pre @ [Send (Response req) v]"
          and pre: "sent pre = []" "enqueued pre = []" "dequeued pre = []" "replied pre = []"
            "invoked pre = replicate (length (filter is_Invoke pre)) req"
            "filter (\<lambda>e. e = Tick) pre = []"
            "length (filter is_Invoke pre) \<le> Suc maxRetries - (attempt + 1)"
          by blast
        from le Inl True rest have "sendRequest_loop api req n attempt backoff
            = (Invoke req # Sleep backoff # pre) @ [Send (Response req) v]"
          by (simp add: sendRequest_loop.simps [of api req n attempt backoff])
        moreover have "Suc (length (filter is_Invoke pre)) \<le> Suc maxRetries - attempt"
          using pre(7) le by simp
        ultimately show ?thesis using pre
          by (intro exI [of _ "Invoke req # Sleep backoff # pre"] exI [of _ v]) simp
      qed
    qed
  qed
qed

lemma loop_invoke_first:
  "attempt \<le> maxRetries \<Longrightarrow> \<exists>es. sendRequest_loop api req n attempt backoff = Invoke req # es"
  by (simp add: sendRequest_loop.simps [of api req n attempt backoff])

lemma sendRequest_shape:
  "\<exists>pre v k. sendRequest api req n = Invoke req # pre @ [Send (Response req) v]
      \<and> sent pre = [] \<and> enqueued pre = [] \<and> dequeued pre = [] \<and> replied pre = []
      \<and> invoked pre = replicate k req \<and> k < maxRetries
      \<and> filter (\<lambda>e. e = Tick) pre = [] \<and> k = length (filter is_Invoke pre)"
proof -
  obtain pre v where p: "sendRequest api req n = pre @ [Send (Response req) v]"
      "sent pre = []" "enqueued pre = []" "dequeued pre = []" "replied pre = []"
      "invoked pre = replicate (length (filter is_Invoke pre)) req"
      "filter (\<lambda>e. e = Tick) pre = []"
      "length (filter is_Invoke pre) \<le> Suc maxRetries - 1"
    using loop_shape [of api req n 1 "500 * Millisecond"] unfolding sendRequest_def by blast
  obtain es where e: "sendRequest api req n = Invoke req # es"
    using loop_invoke_first [of 1 api req n "500 * Millisecond"]
    unfolding sendRequest_def by (auto simp: maxRetries_def)
  from p(1) e obtain pre' where pre': "pre = Invoke req # pre'"
    by (cases pre) auto
  have "length (filter is_Invoke pre') < maxRetries" using p(8) pre' by simp
  moreover have "invoked pre' = replicate (length (filter is_Invoke pre')) req"
    using p(6) pre' by simp
  ultimately show ?thesis using p pre'
    by (intro exI [of _ pre'] exI [of _ v] exI [of _ "length (filter is_Invoke pre')"]) simp
qed

text \<open>
  From a positive backoff and an attempt number of at least 1, every sleep is at least the
  current backoff and each sleep is longer than the one before.
\<close>

lemma loop_sleeps:
  "0 < backoff \<Longrightarrow> 0 < attempt \<Longrightarrow>
     sorted_wrt (<) (sleeps (sendRequest_loop api req n attempt backoff))
     \<and> (\<forall>d \<in> set (sleeps (sendRequest_loop api req n attempt backoff)). backoff \<le> d)"
proof (induction api req n attempt backoff rule: sendRequest_loop.induct)
  case (1 api req n attempt backoff)
  show ?case
  proof (cases "attempt \<le> maxRetries \<and> api n req = Inl ErrRateLimited")
    case False
    then show ?thesis
      by (auto simp add: sendRequest_loop.simps [of api req n attempt backoff] split: sum.splits)
  next
    case True
    have pos: "0 < backoff * 2 ^ attempt" using "1.prems" by simp
    have "(1::int) < 2 ^ attempt" using "1.prems" by simp
    then have gt: "backoff < backoff * 2 ^ attempt" using "1.prems" by simp
    from "1.IH" [of ErrRateLimited, OF _ _ _ pos] True
    have ih: "sorted_wrt (<) (sleeps (sendRequest_loop api req (n + 1) (attempt + 1) (backoff * 2 ^ attempt)))"
         "\<forall>d \<in> set (sleeps (sendRequest_loop api req (n + 1) (attempt + 1) (backoff * 2 ^ attempt))).
            backoff * 2 ^ attempt \<le> d"
      by auto
    from True have "sleeps (sendRequest_loop api req n attempt backoff)
        = backoff # sleeps (sendRequest_loop api req (n + 1) (attempt + 1) (backoff * 2 ^ attempt))"
      by (simp add: sendRequest_loop.simps [of api req n attempt backoff])
    then show ?thesis using ih gt by fastforce
  qed
qed

lemmas sendRequest_eval = sendRequest_def sendRequest_loop.simps maxRetries_def simulated_def
  callThirdPartyAPI_def every_draw_low_def first_draw_low_def broken_downstream_def

text \<open>
  C2. When every downstream call for a request is rate-limited (the calls \<open>n\<close>, ...,
  \<open>n + maxRetries - 1\<close> that \<open>sendRequest\<close> makes), \<open>sendRequest\<close> invokes the downstream
  exactly \<open>maxRetries = 5\<close> times, each time for this request, and then sends, as its only
  send, the response whose error is "request failed after 5 retries".
\<close>

theorem sendRequest_retries_exhausted:
  assumes "\<forall>k < maxRetries. api (n + k) req = Inl ErrRateLimited"
  shows "length (filter is_Invoke (sendRequest api req n)) = maxRetries
       \<and> maxRetries = 5
       \<and> invoked (sendRequest api req n) = replicate maxRetries req
       \<and> filter is_Send (sendRequest api req n) = [Send (Response req) exhausted]
       \<and> last (sendRequest api req n) = Send (Response req) exhausted"
proof -
  have a: "api n req = Inl ErrRateLimited" "api (n + 1) req = Inl ErrRateLimited"
    "api (n + 1 + 1) req = Inl ErrRateLimited" "api (n + 1 + 1 + 1) req = Inl ErrRateLimited"
    "api (n + 1 + 1 + 1 + 1) req = Inl ErrRateLimited"
    using assms [rule_format, of 0] assms [rule_format, of 1] assms [rule_format, of 2]
      assms [rule_format, of 3] assms [rule_format, of 4]
    by (simp_all add: maxRetries_def numeral_eq_Suc)
  have "sendRequest api req n =
      [Invoke req, Sleep (500 * Millisecond), Invoke req, Sleep (1000 * Millisecond),
       Invoke req, Sleep (4000 * Millisecond), Invoke req, Sleep (32000 * Millisecond),
       Invoke req, Sleep (512000 * Millisecond), Send (Response req) exhausted]"
    unfolding sendRequest_def
    apply (subst sendRequest_loop.simps, simp only: a)
    apply (subst sendRequest_loop.simps, simp only: a)
    apply (subst sendRequest_loop.simps, simp only: a)
    apply (subst sendRequest_loop.simps, simp only: a)
    apply (subst sendRequest_loop.simps, simp only: a)
    apply (subst sendRequest_loop.simps)
    apply (simp add: maxRetries_def exhausted_def)
    done
  then show ?thesis by (simp add: maxRetries_def numeral_eq_Suc)
qed

theorem sendRequest_retries_exhausted_witness:
  "simulated every_draw_low 0 req_u = Inl ErrRateLimited
   \<and> simulated every_draw_low 4 req_u = Inl ErrRateLimited
   \<and> length (filter is_Invoke (sendRequest (simulated every_draw_low) req_u 0)) = 5
   \<and> last (sendRequest (simulated every_draw_low) req_u 0) = Send 0 exhausted"
  using sendRequest_retries_exhausted [where api = "simulated every_draw_low" and n = 0 and req = req_u]
  by (simp add: simulated_def callThirdPartyAPI_def every_draw_low_def req_u_def)

text \<open>
  C8. When the first downstream call for a request fails with an error other than
  \<open>ErrRateLimited\<close>, \<open>sendRequest\<close> does exactly two things: it invokes the downstream once and
  sends the response carrying that error. There is no second invocation and no sleep.
\<close>

theorem sendRequest_permanent_failure:
  "api n req = Inl err \<Longrightarrow> err \<noteq> ErrRateLimited \<Longrightarrow>
     sendRequest api req n = [Invoke req, Send (Response req) \<lparr>Data = [], Err = Some err\<rparr>]
     \<and> length (filter is_Invoke (sendRequest api req n)) = 1
     \<and> sleeps (sendRequest api req n) = []"
  by (simp add: sendRequest_def sendRequest_loop.simps [of api req n] maxRetries_def)

theorem sendRequest_permanent_failure_witness:
  "broken_downstream 0 req_u = Inl (Errorf ''boom'')
   \<and> Errorf ''boom'' \<noteq> ErrRateLimited
   \<and> sendRequest broken_downstream req_u 0
       = [Invoke req_u, Send 0 \<lparr>Data = [], Err = Some (Errorf ''boom'')\<rparr>]"
  using sendRequest_permanent_failure [where api = broken_downstream and n = 0 and req = req_u
      and err = "Errorf ''boom''"]
  by (simp add: broken_downstream_def req_u_def)

text \<open>
  C9. Whatever the downstream answers, the delays \<open>sendRequest\<close> sleeps, in the order it
  sleeps them, are strictly increasing; when every call is rate-limited there are
  \<open>maxRetries\<close> of them, one after each failed attempt.
\<close>

theorem sendRequest_backoff_increases:
  "sorted_wrt (<) (sleeps (sendRequest api req n))
   \<and> length (sleeps (sendRequest (simulated every_draw_low) req n)) = maxRetries"
proof -
  have "sorted_wrt (<) (sleeps (sendRequest api req n))"
    using loop_sleeps [of "500 * Millisecond" 1 api req n]
    by (simp add: sendRequest_def Millisecond_def)
  moreover have "length (sleeps (sendRequest (simulated every_draw_low) req n)) = maxRetries"
    by (simp add: sendRequest_eval)
  ultimately show ?thesis by simp
qed

text \<open>
  C3. The delays the code sleeps when every attempt is rate-limited are 0.5 s, 1 s, 4 s, 32 s
  and 512 s: each is the one before multiplied by \<open>2 ^ attempt\<close>, so the ratio doubles from
  step to step and the sequence is not \<open>base \<times> 2 ^ attempt\<close>, whether attempts are counted
  from 1 or from 0. The delay depends on the attempt number only.
\<close>

theorem sendRequest_backoff_delays:
  "sleeps (sendRequest (simulated every_draw_low) req n)
     = [500 * Millisecond, 1000 * Millisecond, 4000 * Millisecond, 32000 * Millisecond,
        512000 * Millisecond]
   \<and> map NextDelay_spec [1, 2, 3, 4, 5]
     = [1000 * Millisecond, 2000 * Millisecond, 4000 * Millisecond, 8000 * Millisecond,
        16000 * Millisecond]
   \<and> map NextDelay_spec [0, 1, 2, 3, 4]
     = [500 * Millisecond, 1000 * Millisecond, 2000 * Millisecond, 4000 * Millisecond,
        8000 * Millisecond]"
  by (simp add: sendRequest_eval NextDelay_spec_def Millisecond_def)

section \<open>ep4: what a caller is answered\<close>



lemma render_exhausted:
  "render (Received exhausted) = (StatusInternalServerError, ''request failed after 5 retries'')"
  by (simp add: exhausted_def)



section \<open>ep4: the running program\<close>

subsection \<open>Traces and channel sends\<close>

lemma enqueued_append [simp]: "enqueued (a @ b) = enqueued a @ enqueued b"
  by (induction a rule: enqueued.induct) auto

lemma dequeued_append [simp]: "dequeued (a @ b) = dequeued a @ dequeued b"
  by (induction a rule: dequeued.induct) auto

lemma invoked_append [simp]: "invoked (a @ b) = invoked a @ invoked b"
  by (induction a rule: invoked.induct) auto

lemma sent_append [simp]: "sent (a @ b) = sent a @ sent b"
  by (induction a rule: sent.induct) auto

lemma replied_append [simp]: "replied (a @ b) = replied a @ replied b"
  by (induction a rule: replied.induct) auto

lemma deliver_no_send: "sent pre = [] \<Longrightarrow> deliver (pre @ es) ch = deliver es ch"
  by (induction pre ch rule: deliver.induct) auto

lemma deliver_one:
  "sent pre = [] \<Longrightarrow> ch c = [] \<Longrightarrow> deliver (pre @ [Send c v]) ch = Some (ch(c := [v]))"
  by (simp add: deliver_no_send Response_cap_def)

lemma remdups_adj_fresh:
  "x \<notin> set xs \<Longrightarrow> 0 < k \<Longrightarrow> remdups_adj (xs @ replicate k x) = remdups_adj xs @ [x]"
proof (cases "xs = []")
  case True
  assume "0 < k"
  then show ?thesis using True by (simp add: remdups_adj_replicate)
next
  case False
  assume a: "x \<notin> set xs" "0 < k"
  then have "last xs \<noteq> x" using False last_in_set by metis
  then have "dropWhile (\<lambda>y. y = last xs) (replicate k x) = replicate k x"
    using a by (cases k) auto
  then show ?thesis using a False
    by (simp add: remdups_adj_append'' remdups_adj_replicate)
qed

subsection \<open>The worker's turn and the invariant\<close>

text \<open>
  When the channel of the request at the head of the queue is empty, the worker's turn goes
  through: the request leaves the queue, one tick is observed, the request is invoked between
  1 and \<open>maxRetries\<close> times, and the single send completes.
\<close>

lemma processQueue_request:
  assumes "running s" "requestChan s = req # rest" "chans s (Response req) = []"
  shows "\<exists>pre v k. processQueue api CaseRequest s
            = Some (s\<lparr>requestChan := rest, chans := (chans s)(Response req := [v]),
                      calls := calls s + Suc k,
                      trace := trace s @ Dequeue req # Tick # Invoke req # pre @ [Send (Response req) v]\<rparr>)
          \<and> sent pre = [] \<and> enqueued pre = [] \<and> dequeued pre = [] \<and> replied pre = []
          \<and> invoked pre = replicate k req \<and> k < maxRetries
          \<and> filter (\<lambda>e. e = Tick) pre = [] \<and> k = length (filter is_Invoke pre)"
proof -
  obtain pre v k where p: "sendRequest api req (calls s) = Invoke req # pre @ [Send (Response req) v]"
      "sent pre = []" "enqueued pre = []" "dequeued pre = []" "replied pre = []"
      "invoked pre = replicate k req" "k < maxRetries"
      "filter (\<lambda>e. e = Tick) pre = []" "k = length (filter is_Invoke pre)"
    using sendRequest_shape [of api req "calls s"] by blast
  have d: "deliver (sendRequest api req (calls s)) (chans s) = Some ((chans s)(Response req := [v]))"
    using deliver_one [of "Invoke req # pre" "chans s" "Response req" v] p(1,2) assms(3) by simp
  have "processQueue api CaseRequest s
            = Some (s\<lparr>requestChan := rest, chans := (chans s)(Response req := [v]),
                      calls := calls s + Suc k,
                      trace := trace s @ Dequeue req # Tick # Invoke req # pre @ [Send (Response req) v]\<rparr>)"
    using assms(1,2) d p(1,9) by (simp add: processQueue_def Let_def)
  then show ?thesis using p by blast
qed

lemma lane_inv_init: "lane_inv NewRateLimiter"
  by (simp add: lane_inv_def NewRateLimiter_def)

lemma lane_invI:
  "enqueued (trace s) = dequeued (trace s) @ requestChan s \<Longrightarrow>
   \<forall>r \<in> set (enqueued (trace s)). Response r < nextChan s \<Longrightarrow>
   distinct (map Response (enqueued (trace s))) \<Longrightarrow>
   \<forall>r \<in> set (requestChan s). chans s (Response r) = [] \<Longrightarrow>
   sent (trace s) = map Response (dequeued (trace s)) \<Longrightarrow>
   remdups_adj (invoked (trace s)) = dequeued (trace s) \<Longrightarrow>
   distinct (replied (trace s) @ waiting s) \<Longrightarrow>
   \<forall>c \<in> set (replied (trace s) @ waiting s). c < nextChan s \<Longrightarrow>
   lane_inv s"
  unfolding lane_inv_def by blast

lemma lane_inv_same:
  assumes "enqueued (trace s') = enqueued (trace s)" "dequeued (trace s') = dequeued (trace s)"
    "sent (trace s') = sent (trace s)" "invoked (trace s') = invoked (trace s)"
    "replied (trace s') = replied (trace s)" "requestChan s' = requestChan s"
    "nextChan s' = nextChan s" "waiting s' = waiting s" "chans s' = chans s"
  shows "lane_inv s' = lane_inv s"
  unfolding lane_inv_def assms by (rule refl)

lemma lane_inv_handler:
  assumes "lane_inv s" "handler userID s = Some s'"
  shows "lane_inv s'"
proof (cases "userID = []")
  case True
  with assms(2) have "s' = s\<lparr>trace := trace s @ [Reply None StatusBadRequest ''User ID is required'']\<rparr>"
    by (simp add: handler_def)
  then have "enqueued (trace s') = enqueued (trace s)" "dequeued (trace s') = dequeued (trace s)"
    "sent (trace s') = sent (trace s)" "invoked (trace s') = invoked (trace s)"
    "replied (trace s') = replied (trace s)" "requestChan s' = requestChan s"
    "nextChan s' = nextChan s" "waiting s' = waiting s" "chans s' = chans s"
    by simp_all
  then show ?thesis using assms(1) lane_inv_same [of s' s] by simp
next
  case False
  define req where "req = \<lparr>UserID = userID, Data_req = ''Some data'', Response = nextChan s\<rparr>"
  from assms(2) False have s': "s' = s\<lparr>nextChan := nextChan s + 1, chans := (chans s)(nextChan s := []),
       requestChan := requestChan s @ [req], trace := trace s @ [Enqueue req],
       waiting := waiting s @ [nextChan s]\<rparr>"
    by (auto simp: handler_def SubmitRequest_def Let_def req_def split: if_splits)
  have r: "Response req = nextChan s" by (simp add: req_def)
  from assms(1) have i: "enqueued (trace s) = dequeued (trace s) @ requestChan s"
    "\<forall>r \<in> set (enqueued (trace s)). Response r < nextChan s"
    "distinct (map Response (enqueued (trace s)))"
    "\<forall>r \<in> set (requestChan s). chans s (Response r) = []"
    "sent (trace s) = map Response (dequeued (trace s))"
    "remdups_adj (invoked (trace s)) = dequeued (trace s)"
    "distinct (replied (trace s) @ waiting s)"
    "\<forall>c \<in> set (replied (trace s) @ waiting s). c < nextChan s"
    unfolding lane_inv_def by blast+
  have t: "enqueued (trace s') = enqueued (trace s) @ [req]" "dequeued (trace s') = dequeued (trace s)"
    "sent (trace s') = sent (trace s)" "invoked (trace s') = invoked (trace s)"
    "replied (trace s') = replied (trace s)" "requestChan s' = requestChan s @ [req]"
    "nextChan s' = Suc (nextChan s)" "waiting s' = waiting s @ [nextChan s]"
    "chans s' = (chans s)(nextChan s := [])"
    by (simp_all add: s')
  have n1: "nextChan s \<notin> Response ` set (enqueued (trace s))" using i(2) by fastforce
  have n2: "nextChan s \<notin> set (replied (trace s) @ waiting s)" using i(8) by fastforce
  show ?thesis
  proof (rule lane_invI)
    show "enqueued (trace s') = dequeued (trace s') @ requestChan s'"
      using i(1) by (simp add: t)
    show "\<forall>r \<in> set (enqueued (trace s')). Response r < nextChan s'"
      using i(2) r by (auto simp: t less_Suc_eq)
    show "distinct (map Response (enqueued (trace s')))"
      using i(3) n1 r by (simp add: t)
    show "\<forall>r \<in> set (requestChan s'). chans s' (Response r) = []"
      using i(4) r by (auto simp: t)
    show "sent (trace s') = map Response (dequeued (trace s'))"
      using i(5) by (simp add: t)
    show "remdups_adj (invoked (trace s')) = dequeued (trace s')"
      using i(6) by (simp add: t)
    show "distinct (replied (trace s') @ waiting s')"
      using i(7) n2 by (simp add: t)
    show "\<forall>c \<in> set (replied (trace s') @ waiting s'). c < nextChan s'"
      using i(8) by (auto simp: t less_Suc_eq)
  qed
qed

lemma lane_inv_handler_select:
  assumes "lane_inv s" "handler_select c w s = Some s'"
  shows "lane_inv s'"
proof -
  from assms(2) have cw: "c \<in> set (waiting s)"
    by (auto simp: handler_select_def split: if_splits)
  have "\<exists>ch st msg. s' = s\<lparr>chans := ch, waiting := removeAll c (waiting s),
        trace := trace s @ [Reply (Some c) st msg]\<rparr> \<and> (\<forall>c'. chans s c' = [] \<longrightarrow> ch c' = [])"
  proof (cases w)
    case CaseResponse
    with assms(2) cw obtain resp rest where
      "s' = s\<lparr>chans := (chans s)(c := rest), waiting := removeAll c (waiting s),
        trace := trace s @ [Reply (Some c) (fst (render (Received resp))) (snd (render (Received resp)))]\<rparr>"
      by (auto simp: handler_select_def simp del: render.simps split: list.splits)
    moreover have "\<forall>c'. chans s c' = [] \<longrightarrow> ((chans s)(c := rest)) c' = []"
      using CaseResponse assms(2) cw by (auto simp: handler_select_def split: list.splits)
    ultimately show ?thesis by blast
  next
    case CaseTimeout
    with assms(2) cw have "s' = s\<lparr>chans := chans s, waiting := removeAll c (waiting s),
        trace := trace s @ [Reply (Some c) (fst (render TimedOut)) (snd (render TimedOut))]\<rparr>"
      by (simp add: handler_select_def)
    then show ?thesis by blast
  qed
  then obtain ch st msg where s': "s' = s\<lparr>chans := ch, waiting := removeAll c (waiting s),
        trace := trace s @ [Reply (Some c) st msg]\<rparr>"
      and ch: "\<forall>c'. chans s c' = [] \<longrightarrow> ch c' = []"
    by blast
  from assms(1) have i: "enqueued (trace s) = dequeued (trace s) @ requestChan s"
    "\<forall>r \<in> set (enqueued (trace s)). Response r < nextChan s"
    "distinct (map Response (enqueued (trace s)))"
    "\<forall>r \<in> set (requestChan s). chans s (Response r) = []"
    "sent (trace s) = map Response (dequeued (trace s))"
    "remdups_adj (invoked (trace s)) = dequeued (trace s)"
    "distinct (replied (trace s) @ waiting s)"
    "\<forall>c \<in> set (replied (trace s) @ waiting s). c < nextChan s"
    unfolding lane_inv_def by blast+
  have t: "enqueued (trace s') = enqueued (trace s)" "dequeued (trace s') = dequeued (trace s)"
    "sent (trace s') = sent (trace s)" "invoked (trace s') = invoked (trace s)"
    "replied (trace s') = replied (trace s) @ [c]" "requestChan s' = requestChan s"
    "nextChan s' = nextChan s" "waiting s' = removeAll c (waiting s)"
    "chans s' = ch"
    by (simp_all add: s')
  show ?thesis
  proof (rule lane_invI)
    show "enqueued (trace s') = dequeued (trace s') @ requestChan s'"
      using i(1) by (simp add: t)
    show "\<forall>r \<in> set (enqueued (trace s')). Response r < nextChan s'"
      using i(2) unfolding t .
    show "distinct (map Response (enqueued (trace s')))"
      using i(3) unfolding t .
    show "\<forall>r \<in> set (requestChan s'). chans s' (Response r) = []"
      using i(4) ch unfolding t by blast
    show "sent (trace s') = map Response (dequeued (trace s'))"
      using i(5) unfolding t .
    show "remdups_adj (invoked (trace s')) = dequeued (trace s')"
      using i(6) unfolding t .
    show "distinct (replied (trace s') @ waiting s')"
      using i(7) cw unfolding t by (auto simp: distinct_removeAll)
    show "\<forall>c \<in> set (replied (trace s') @ waiting s'). c < nextChan s'"
      using i(8) cw unfolding t by auto
  qed
qed

lemma lane_inv_Shutdown:
  assumes "lane_inv s" "Shutdown s = Some s'"
  shows "lane_inv s'"
proof -
  from assms(2) have "s' = s\<lparr>shutdownChan := True\<rparr>"
    by (auto simp: Shutdown_def split: if_splits)
  then have "trace s' = trace s" "requestChan s' = requestChan s"
    "nextChan s' = nextChan s" "waiting s' = waiting s" "chans s' = chans s"
    by simp_all
  then show ?thesis using assms(1) lane_inv_same [of s' s] by simp
qed

lemma lane_inv_processQueue:
  assumes "lane_inv s" "processQueue api c s = Some s'"
  shows "lane_inv s'"
proof (cases c)
  case CaseShutdown
  with assms(2) have "s' = s\<lparr>running := False\<rparr>"
    by (auto simp: processQueue_def split: if_splits)
  then have "trace s' = trace s" "requestChan s' = requestChan s"
    "nextChan s' = nextChan s" "waiting s' = waiting s" "chans s' = chans s"
    by simp_all
  then show ?thesis using assms(1) lane_inv_same [of s' s] by simp
next
  case CaseRequest
  from assms(2) CaseRequest obtain req rest where q: "running s" "requestChan s = req # rest"
    by (auto simp: processQueue_def split: if_splits list.splits)
  from assms(1) have i: "enqueued (trace s) = dequeued (trace s) @ requestChan s"
    "\<forall>r \<in> set (enqueued (trace s)). Response r < nextChan s"
    "distinct (map Response (enqueued (trace s)))"
    "\<forall>r \<in> set (requestChan s). chans s (Response r) = []"
    "sent (trace s) = map Response (dequeued (trace s))"
    "remdups_adj (invoked (trace s)) = dequeued (trace s)"
    "distinct (replied (trace s) @ waiting s)"
    "\<forall>c \<in> set (replied (trace s) @ waiting s). c < nextChan s"
    unfolding lane_inv_def by blast+
  have empty: "chans s (Response req) = []" using i(4) q(2) by simp
  from processQueue_request [OF q empty, of api] assms(2) CaseRequest
  obtain pre v k where s': "s' = s\<lparr>requestChan := rest, chans := (chans s)(Response req := [v]),
                      calls := calls s + Suc k,
                      trace := trace s @ Dequeue req # Tick # Invoke req # pre @ [Send (Response req) v]\<rparr>"
     and p: "sent pre = []" "enqueued pre = []" "dequeued pre = []" "replied pre = []"
          "invoked pre = replicate k req"
    by auto
  have t: "enqueued (trace s') = enqueued (trace s)" "dequeued (trace s') = dequeued (trace s) @ [req]"
    "sent (trace s') = sent (trace s) @ [Response req]"
    "invoked (trace s') = invoked (trace s) @ replicate (Suc k) req"
    "replied (trace s') = replied (trace s)" "requestChan s' = rest"
    "nextChan s' = nextChan s" "waiting s' = waiting s"
    "chans s' = (chans s)(Response req := [v])"
    by (simp_all add: s' p)
  have dist: "distinct (map Response (dequeued (trace s) @ req # rest))"
    using i(1,3) q(2) by simp
  then have fresh: "req \<notin> set (dequeued (trace s))" by auto
  then have "req \<notin> set (invoked (trace s))"
    using i(6) remdups_adj_set [of "invoked (trace s)"] by simp
  then have inv': "remdups_adj (invoked (trace s) @ replicate (Suc k) req) = dequeued (trace s) @ [req]"
    using remdups_adj_fresh [of req "invoked (trace s)" "Suc k"] i(6) by simp
  have "Response req \<notin> Response ` set rest" using dist by simp
  then have others: "\<forall>r \<in> set rest. Response r \<noteq> Response req" by (metis imageI)
  show ?thesis
  proof (rule lane_invI)
    show "enqueued (trace s') = dequeued (trace s') @ requestChan s'"
      using i(1) q(2) by (simp add: t)
    show "\<forall>r \<in> set (enqueued (trace s')). Response r < nextChan s'"
      using i(2) unfolding t .
    show "distinct (map Response (enqueued (trace s')))"
      using i(3) unfolding t .
    show "\<forall>r \<in> set (requestChan s'). chans s' (Response r) = []"
      using i(4) q(2) others by (simp add: t)
    show "sent (trace s') = map Response (dequeued (trace s'))"
      using i(5) by (simp add: t)
    show "remdups_adj (invoked (trace s')) = dequeued (trace s')"
      using inv' unfolding t .
    show "distinct (replied (trace s') @ waiting s')"
      using i(7) unfolding t .
    show "\<forall>c \<in> set (replied (trace s') @ waiting s'). c < nextChan s'"
      using i(8) unfolding t .
  qed
qed

lemma lane_inv_step: "lane_inv s \<Longrightarrow> step api a s = Some s' \<Longrightarrow> lane_inv s'"
  by (cases a) (auto intro: lane_inv_handler lane_inv_handler_select lane_inv_Shutdown lane_inv_processQueue)

lemma lane_inv_exec: "lane_inv s \<Longrightarrow> exec api acts s = Some s' \<Longrightarrow> lane_inv s'"
  by (induction acts arbitrary: s) (auto split: option.splits dest: lane_inv_step)


lemma throttled_no_tick:
  "filter (\<lambda>e. e = Tick) es = [] \<Longrightarrow> throttled False es \<longleftrightarrow> filter is_Invoke es = []"
  by (induction False es rule: throttled.induct) (auto split: if_splits)

subsection \<open>Runs\<close>

lemmas run_defs = NewRateLimiter_def handler_def SubmitRequest_def requestChan_cap_def
  processQueue_def sendRequest_def sendRequest_loop.simps maxRetries_def Response_cap_def
  simulated_def callThirdPartyAPI_def Let_def Shutdown_def handler_select_def
  req_u_def req_v_def resp_u_def first_draw_low_def every_draw_low_def

lemma exec_retried_run:
  "exec (simulated first_draw_low) [Handler ''u'', Worker CaseRequest] NewRateLimiter = Some retried_run"
  by (simp add: run_defs retried_run_def)

lemma exec_submitted_run:
  "exec (simulated every_draw_low) [Handler ''u'', CallShutdown] NewRateLimiter = Some submitted_run"
  by (simp add: run_defs submitted_run_def)

lemma exec_halted_run:
  "exec (simulated every_draw_low) [Handler ''u'', CallShutdown, Worker CaseShutdown] NewRateLimiter
     = Some halted_run"
  by (simp add: run_defs halted_run_def)

lemma exec_abandoned_run:
  "exec (simulated first_draw_low) [Handler ''u'', HandlerSelect 0 CaseTimeout, Worker CaseRequest]
     NewRateLimiter = Some abandoned_run"
  by (simp add: run_defs abandoned_run_def)

lemma exec_two_callers_run:
  "exec (simulated first_draw_low) [Handler ''u'', Handler ''v'', Worker CaseRequest]
     NewRateLimiter = Some two_callers_run"
  by (simp add: run_defs two_callers_run_def)

section \<open>ep4: throttle, shutdown, delivery, order\<close>

text \<open>
  C1, as the claim states it, fails. User \<open>u\<close> submits a request; the worker dequeues it,
  observes one tick and invokes the downstream, which is rate-limited; after the backoff sleep
  the worker invokes the downstream again, with no tick in between. The trace of this run is
  not throttled in the sense of the claim.
\<close>

theorem throttle_per_attempt_counterexample:
  "exec (simulated first_draw_low) [Handler ''u'', Worker CaseRequest] NewRateLimiter = Some retried_run
   \<and> trace retried_run
       = [Enqueue req_u, Dequeue req_u, Tick, Invoke req_u, Sleep (500 * Millisecond),
          Invoke req_u, Send 0 resp_u]
   \<and> \<not> throttled False (trace retried_run)"
  using exec_retried_run by (simp add: retried_run_def)

text \<open>
  C1, amended. In every turn of the worker that takes a request, the worker dequeues the
  request, observes exactly one tick and then runs \<open>sendRequest\<close>, which observes no tick:
  the one tick comes before the first invocation and is followed by between 1 and
  \<open>maxRetries\<close> invocations of the request. Every invocation of the turn has a tick of its
  own exactly when the request needs no retry.
\<close>

theorem throttle_once_per_item:
  assumes "processQueue api CaseRequest s = Some s'"
  shows "\<exists>req. requestChan s = req # requestChan s'
       \<and> trace s' = trace s @ Dequeue req # Tick # sendRequest api req (calls s)
       \<and> length (filter (\<lambda>e. e = Tick) (Dequeue req # Tick # sendRequest api req (calls s))) = 1
       \<and> 1 \<le> length (filter is_Invoke (sendRequest api req (calls s)))
       \<and> length (filter is_Invoke (sendRequest api req (calls s))) \<le> maxRetries
       \<and> (throttled False (Dequeue req # Tick # sendRequest api req (calls s))
            \<longleftrightarrow> length (filter is_Invoke (sendRequest api req (calls s))) = 1)"
proof -
  from assms obtain req rest where q: "requestChan s = req # rest"
    by (auto simp: processQueue_def split: if_splits list.splits)
  with assms have s': "requestChan s' = rest"
      "trace s' = trace s @ Dequeue req # Tick # sendRequest api req (calls s)"
    by (auto simp: processQueue_def Let_def split: if_splits option.splits)
  obtain pre v k where p: "sendRequest api req (calls s) = Invoke req # pre @ [Send (Response req) v]"
      "k < maxRetries" "filter (\<lambda>e. e = Tick) pre = []" "k = length (filter is_Invoke pre)"
    using sendRequest_shape [of api req "calls s"] by blast
  have "throttled False (pre @ [Send (Response req) v])
          \<longleftrightarrow> filter is_Invoke (pre @ [Send (Response req) v]) = []"
    using p(3) by (intro throttled_no_tick) simp
  then have "throttled False (Dequeue req # Tick # sendRequest api req (calls s)) \<longleftrightarrow> k = 0"
    using p(1,4) by simp
  then show ?thesis using q s' p by (intro exI [of _ req]) auto
qed

theorem throttle_once_per_item_witness:
  "processQueue (simulated first_draw_low) CaseRequest (the (handler ''u'' NewRateLimiter))
     = Some retried_run
   \<and> length (filter (\<lambda>e. e = Tick) (trace retried_run)) = 1
   \<and> length (filter is_Invoke (trace retried_run)) = 2"
  using throttle_once_per_item [of "simulated first_draw_low" "the (handler ''u'' NewRateLimiter)"
      retried_run]
  by (simp add: run_defs retried_run_def)

text \<open>
  C4, as the claim states it, fails. User \<open>u\<close> submits a request, \<open>Shutdown\<close> is called, and
  the worker's \<open>select\<close> takes the shutdown case: the worker has returned, the request is
  still in the queue, nothing was sent on its channel, and the worker takes no further turn.
\<close>

theorem shutdown_drains_counterexample:
  "exec (simulated every_draw_low) [Handler ''u'', CallShutdown, Worker CaseShutdown] NewRateLimiter
     = Some halted_run
   \<and> \<not> running halted_run \<and> requestChan halted_run = [req_u]
   \<and> chans halted_run (Response req_u) = [] \<and> sent (trace halted_run) = []
   \<and> processQueue (simulated every_draw_low) CaseRequest halted_run = None"
  using exec_halted_run by (simp add: halted_run_def req_u_def processQueue_def)

text \<open>
  C4, amended. When the worker's \<open>select\<close> takes the shutdown case, which it can only after
  \<open>Shutdown\<close> was called, the worker returns at once: the queue, the response channels and
  the trace stay as they are, and the worker takes no further turn, so what is queued then
  stays queued and gets nothing from the worker. A turn on a request is not cut short by
  \<open>Shutdown\<close>: it does the same with the shutdown channel closed as with it open. A handler
  that still waits can always leave through its timeout, with status 504.
\<close>

theorem shutdown_halts_without_draining:
  "(processQueue api CaseShutdown s = Some s' \<longrightarrow>
      shutdownChan s \<and> \<not> running s' \<and> requestChan s' = requestChan s \<and> chans s' = chans s
      \<and> trace s' = trace s \<and> processQueue api c s' = None)
   \<and> processQueue api CaseRequest (s\<lparr>shutdownChan := True\<rparr>)
       = map_option (\<lambda>t. t\<lparr>shutdownChan := True\<rparr>) (processQueue api CaseRequest s)
   \<and> (c' \<in> set (waiting s) \<longrightarrow>
        map_option trace (handler_select c' CaseTimeout s)
          = Some (trace s @ [Reply (Some c') StatusGatewayTimeout ''Request timed out'']))"
  by (auto simp: processQueue_def handler_select_def Let_def split: if_splits list.splits option.splits)

theorem shutdown_halts_without_draining_witness:
  "processQueue (simulated every_draw_low) CaseShutdown submitted_run = Some halted_run
   \<and> requestChan halted_run = [req_u] \<and> \<not> running halted_run
   \<and> 0 \<in> set (waiting halted_run)
   \<and> map_option trace (handler_select 0 CaseTimeout halted_run)
       = Some [Enqueue req_u, Reply (Some 0) StatusGatewayTimeout ''Request timed out'']"
  using shutdown_halts_without_draining [of "simulated every_draw_low" submitted_run halted_run
      CaseRequest 0]
    shutdown_halts_without_draining [of "simulated every_draw_low" halted_run halted_run
      CaseRequest 0]
  by (simp add: processQueue_def handler_select_def submitted_run_def halted_run_def)

text \<open>
  Once the worker has returned, nothing is dequeued or sent any more, whatever the handlers
  and \<open>Shutdown\<close> do.
\<close>

lemma halted_step:
  assumes "\<not> running s" "step api a s = Some s'"
  shows "\<not> running s' \<and> sent (trace s') = sent (trace s) \<and> dequeued (trace s') = dequeued (trace s)"
proof (cases a)
  case (Handler userID)
  with assms show ?thesis
    by (auto simp: handler_def SubmitRequest_def Let_def split: if_splits)
next
  case (HandlerSelect c w)
  with assms show ?thesis
    by (cases w) (auto simp: handler_select_def split: if_splits list.splits)
next
  case CallShutdown
  with assms show ?thesis by (auto simp: Shutdown_def split: if_splits)
next
  case (Worker c)
  with assms show ?thesis by (simp add: processQueue_def)
qed

lemma halted_exec:
  "\<not> running s \<Longrightarrow> exec api acts s = Some s' \<Longrightarrow>
     \<not> running s' \<and> sent (trace s') = sent (trace s) \<and> dequeued (trace s') = dequeued (trace s)"
proof (induction acts arbitrary: s)
  case Nil
  then show ?case by simp
next
  case (Cons a acts)
  from Cons.prems(2) obtain t where t: "step api a s = Some t" "exec api acts t = Some s'"
    by (auto split: option.splits)
  from halted_step [OF Cons.prems(1) t(1)] Cons.IH [OF _ t(2)] show ?case by simp
qed

lemma exec_timed_out_run:
  "exec (simulated first_draw_low) [Handler ''u'', HandlerSelect 0 CaseTimeout] NewRateLimiter
     = Some timed_out_run"
  by (simp add: run_defs timed_out_run_def StatusGatewayTimeout_def)

lemma exec_backlog_run:
  "exec (simulated first_draw_low)
     [Handler ''u'', Handler ''v'', Worker CaseRequest, CallShutdown, Worker CaseShutdown]
     NewRateLimiter = Some backlog_run"
  by (simp add: run_defs backlog_run_def)

lemma exec_backlog_timed_out_run:
  "exec (simulated first_draw_low) [HandlerSelect 1 CaseTimeout] backlog_run
     = Some backlog_timed_out_run"
  by (simp add: run_defs backlog_run_def backlog_timed_out_run_def StatusGatewayTimeout_def)

text \<open>
  C6, as the claim states it, fails. Users \<open>u\<close> and \<open>v\<close> submit; the worker serves \<open>u\<close>;
  \<open>Shutdown\<close> is called and the worker takes the shutdown case. The request of \<open>v\<close> was
  accepted and is still queued, but the worker has returned and can take no turn: nothing was
  sent on \<open>v\<close>'s channel, its buffer is empty, and when the handler of \<open>v\<close> times out this
  is still so. The worker wrote to \<open>v\<close>'s channel zero times, not once.
\<close>

theorem outcome_for_every_item_counterexample:
  "exec (simulated first_draw_low)
     [Handler ''u'', Handler ''v'', Worker CaseRequest, CallShutdown, Worker CaseShutdown]
     NewRateLimiter = Some backlog_run
   \<and> enqueued (trace backlog_run) = [req_u, req_v]
   \<and> sent (trace backlog_run) = [Response req_u]
   \<and> Response req_v \<noteq> Response req_u
   \<and> chans backlog_run (Response req_v) = []
   \<and> \<not> running backlog_run
   \<and> processQueue (simulated first_draw_low) CaseRequest backlog_run = None
   \<and> processQueue (simulated first_draw_low) CaseShutdown backlog_run = None
   \<and> exec (simulated first_draw_low) [HandlerSelect 1 CaseTimeout] backlog_run
       = Some backlog_timed_out_run
   \<and> sent (trace backlog_timed_out_run) = [Response req_u]
   \<and> chans backlog_timed_out_run (Response req_v) = []"
  using exec_backlog_run exec_backlog_timed_out_run
  by (simp add: backlog_run_def backlog_timed_out_run_def req_u_def req_v_def processQueue_def)

text \<open>
  C6, amended. Every call of \<open>sendRequest\<close> sends exactly once, as its last effect, on the
  channel of its request. In every state the program reaches:
  the sends of the worker are, in order, on the channels of the requests it has dequeued, one
  send each and no channel twice, and no handler has answered twice;
  nothing has been sent for a request that is still queued, and its channel is empty;
  while the worker runs, its turn on the request at the head of the queue goes through, also
  when the handler of that request has timed out: the request leaves the queue, exactly one
  send is added, on the channel of that request, and the buffer of that channel then holds
  exactly the response sent, so the send on the capacity-1 channel neither blocks nor fails;
  once the worker has returned, no send is ever added, so a request still queued then gets
  no Outcome from the worker.
\<close>

theorem one_outcome_per_dispatched_item:
  assumes "exec api acts NewRateLimiter = Some s"
  shows "filter is_Send (sendRequest api req n) = [last (sendRequest api req n)]
       \<and> (\<exists>v. last (sendRequest api req n) = Send (Response req) v)
       \<and> sent (trace s) = map Response (dequeued (trace s))
       \<and> distinct (sent (trace s))
       \<and> distinct (replied (trace s))
       \<and> (\<forall>r \<in> set (requestChan s). Response r \<notin> set (sent (trace s)) \<and> chans s (Response r) = [])
       \<and> (running s \<longrightarrow>
            (\<forall>r rest. requestChan s = r # rest \<longrightarrow>
               (\<exists>pre v s'. processQueue api CaseRequest s = Some s'
                  \<and> sendRequest api r (calls s) = Invoke r # pre @ [Send (Response r) v]
                  \<and> sent pre = []
                  \<and> trace s' = trace s @ Dequeue r # Tick # sendRequest api r (calls s)
                  \<and> sent (trace s') = sent (trace s) @ [Response r]
                  \<and> chans s' = (chans s)(Response r := [v])
                  \<and> requestChan s' = rest)))
       \<and> (\<not> running s \<longrightarrow>
            (\<forall>acts' s'. exec api acts' s = Some s' \<longrightarrow>
               \<not> running s' \<and> sent (trace s') = sent (trace s)))"
proof -
  have inv: "lane_inv s" using lane_inv_exec [OF lane_inv_init assms] .
  then have i: "enqueued (trace s) = dequeued (trace s) @ requestChan s"
    "distinct (map Response (enqueued (trace s)))"
    "\<forall>r \<in> set (requestChan s). chans s (Response r) = []"
    "sent (trace s) = map Response (dequeued (trace s))"
    "distinct (replied (trace s) @ waiting s)"
    unfolding lane_inv_def by blast+
  have dist: "distinct (map Response (dequeued (trace s)) @ map Response (requestChan s))"
    using i(1,2) by simp
  have d1: "distinct (sent (trace s))" using dist i(4) by simp
  have d2: "distinct (replied (trace s))" using i(5) by simp
  have queued: "\<forall>r \<in> set (requestChan s). Response r \<notin> set (sent (trace s)) \<and> chans s (Response r) = []"
  proof
    fix r assume r: "r \<in> set (requestChan s)"
    then have "Response r \<in> set (map Response (requestChan s))" by simp
    then have "Response r \<notin> set (map Response (dequeued (trace s)))"
      using dist by auto
    then show "Response r \<notin> set (sent (trace s)) \<and> chans s (Response r) = []"
      using i(3,4) r by simp
  qed
  have turn: "\<exists>pre v s'. processQueue api CaseRequest s = Some s'
                  \<and> sendRequest api r (calls s) = Invoke r # pre @ [Send (Response r) v]
                  \<and> sent pre = []
                  \<and> trace s' = trace s @ Dequeue r # Tick # sendRequest api r (calls s)
                  \<and> sent (trace s') = sent (trace s) @ [Response r]
                  \<and> chans s' = (chans s)(Response r := [v])
                  \<and> requestChan s' = rest"
    if run: "running s" and q: "requestChan s = r # rest" for r rest
  proof -
    have e: "chans s (Response r) = []" using i(3) q by simp
    obtain pre v k where p: "sendRequest api r (calls s) = Invoke r # pre @ [Send (Response r) v]"
        "sent pre = []" "k = length (filter is_Invoke pre)"
      using sendRequest_shape [of api r "calls s"] by blast
    have d: "deliver (sendRequest api r (calls s)) (chans s) = Some ((chans s)(Response r := [v]))"
      using deliver_one [of "Invoke r # pre" "chans s" "Response r" v] p(1,2) e by simp
    define s' where "s' = s\<lparr>requestChan := rest, chans := (chans s)(Response r := [v]),
        calls := calls s + length (filter is_Invoke (sendRequest api r (calls s))),
        trace := trace s @ Dequeue r # Tick # sendRequest api r (calls s)\<rparr>"
    have "processQueue api CaseRequest s = Some s'"
      using run q d by (simp add: processQueue_def Let_def s'_def)
    moreover have "sent (trace s') = sent (trace s) @ [Response r]"
      using p(2) by (simp add: s'_def p(1))
    moreover have "trace s' = trace s @ Dequeue r # Tick # sendRequest api r (calls s)"
      "chans s' = (chans s)(Response r := [v])" "requestChan s' = rest"
      by (simp_all add: s'_def)
    ultimately show ?thesis using p(1,2) by blast
  qed
  have halted: "\<not> running s' \<and> sent (trace s') = sent (trace s)"
    if "\<not> running s" "exec api acts' s = Some s'" for acts' s'
    using halted_exec [OF that] by simp
  have one: "filter is_Send (sendRequest api req n) = [last (sendRequest api req n)]
       \<and> (\<exists>v. last (sendRequest api req n) = Send (Response req) v)"
    using loop_send_last [of api req n 1 "500 * Millisecond"] by (simp add: sendRequest_def)
  show ?thesis
    using one i(4) d1 d2 queued turn halted by blast
qed

theorem one_outcome_per_dispatched_item_witness:
  "exec (simulated first_draw_low) [Handler ''u'', HandlerSelect 0 CaseTimeout] NewRateLimiter
     = Some timed_out_run
   \<and> running timed_out_run \<and> requestChan timed_out_run = [req_u] \<and> waiting timed_out_run = []
   \<and> processQueue (simulated first_draw_low) CaseRequest timed_out_run = Some abandoned_run
   \<and> sent (trace abandoned_run) = [0]
   \<and> chans abandoned_run 0 = [resp_u]
   \<and> replied (trace abandoned_run) = [0]
   \<and> handler_select 0 CaseResponse abandoned_run = None
   \<and> \<not> running backlog_run
   \<and> exec (simulated first_draw_low) [HandlerSelect 1 CaseTimeout] backlog_run
       = Some backlog_timed_out_run
   \<and> sent (trace backlog_timed_out_run) = sent (trace backlog_run)"
  using one_outcome_per_dispatched_item [OF exec_timed_out_run, of req_u 0]
    one_outcome_per_dispatched_item [OF exec_abandoned_run, of req_u 0]
    one_outcome_per_dispatched_item [OF exec_backlog_run, of req_u 0]
    exec_timed_out_run exec_backlog_timed_out_run
  by (simp add: run_defs timed_out_run_def abandoned_run_def backlog_run_def
        backlog_timed_out_run_def StatusGatewayTimeout_def)

text \<open>
  C7. In every state the program reaches, whatever the handlers and the worker did and in
  whatever interleaving, the requests enqueued so far are, in order, the requests dequeued so
  far followed by the queue: requests are dequeued in the order they were enqueued. The
  downstream is invoked for the requests in that same order, all invocations of a request
  together, and no request is enqueued twice.
\<close>

theorem fifo_dispatch:
  assumes "exec api acts NewRateLimiter = Some s"
  shows "enqueued (trace s) = dequeued (trace s) @ requestChan s
       \<and> remdups_adj (invoked (trace s)) = dequeued (trace s)
       \<and> distinct (enqueued (trace s))"
proof -
  have inv: "lane_inv s" using lane_inv_exec [OF lane_inv_init assms] .
  then have i: "enqueued (trace s) = dequeued (trace s) @ requestChan s"
    "distinct (map Response (enqueued (trace s)))"
    "remdups_adj (invoked (trace s)) = dequeued (trace s)"
    unfolding lane_inv_def by blast+
  from i(2) have "distinct (enqueued (trace s))" by (simp add: distinct_map)
  with i show ?thesis by blast
qed

theorem fifo_dispatch_witness:
  "exec (simulated first_draw_low) [Handler ''u'', Handler ''v'', Worker CaseRequest]
     NewRateLimiter = Some two_callers_run
   \<and> enqueued (trace two_callers_run) = [req_u, req_v]
   \<and> dequeued (trace two_callers_run) = [req_u]
   \<and> invoked (trace two_callers_run) = [req_u, req_u]
   \<and> requestChan two_callers_run = [req_v]"
  using fifo_dispatch [OF exec_two_callers_run] exec_two_callers_run
  by (simp add: two_callers_run_def)

section \<open>ep2: storage failure\<close>

text \<open>
  C10. While storage is disabled, \<open>Limit\<close> returns an error and leaves the limiter, and so the
  visitors map, as it found it, for every state, user and clock; while storage is enabled,
  \<open>Limit\<close> returns no error. \<open>SimulateStorageFailure\<close> is the switch between the two and
  does not touch the visitors map itself.
\<close>

theorem Limit_storage_error:
  "(\<not> storageEnabled rl \<longrightarrow>
      snd (fst (Limit t1 t2 rl userID)) \<noteq> None \<and>
      visitors (snd (Limit t1 t2 rl userID)) = visitors rl \<and>
      snd (Limit t1 t2 rl userID) = rl)
   \<and> (storageEnabled rl \<longrightarrow> snd (fst (Limit t1 t2 rl userID)) = None)
   \<and> storageEnabled (SimulateStorageFailure enable rl) = enable
   \<and> visitors (SimulateStorageFailure enable rl) = visitors rl"
  by (simp add: Limit_def SimulateStorageFailure_def Let_def split: option.split)

theorem Limit_storage_error_witness:
  "\<not> storageEnabled (SimulateStorageFailure False NewRateLimiter_ep2)
   \<and> Limit 7 8 (SimulateStorageFailure False NewRateLimiter_ep2) ''u''
       = ((False, Some (Errorf ''storage unavailable'')), SimulateStorageFailure False NewRateLimiter_ep2)
   \<and> storageEnabled NewRateLimiter_ep2
   \<and> snd (fst (Limit 7 8 NewRateLimiter_ep2 ''u'')) = None"
  using Limit_storage_error [of "SimulateStorageFailure False NewRateLimiter_ep2" 7 8 "''u''" False]
        Limit_storage_error [of NewRateLimiter_ep2 7 8 "''u''" True]
  by (simp add: Limit_def SimulateStorageFailure_def NewRateLimiter_ep2_def)

end
